theory Spec2Isabelle
  imports Main "HOL-Library.Sublist" "HOL-Library.Multiset"
begin

section \<open>Strings\<close>

text \<open>
  A JavaScript string is a sequence of UTF-16 code units; \<open>length\<close>, match indices and
  \<open>m[0].length\<close> all count code units. A code unit is modelled by its number, so that the
  line terminators U+2028 and U+2029 and the Unicode spaces are ordinary elements.
  \<open>js\<close> turns an ASCII literal into such a string.
\<close>

type_synonym jsstring = "nat list"

definition js :: "string \<Rightarrow> jsstring" where
  "js s = map of_char s"

text \<open>LineTerminator of ECMAScript: LF, CR, LS, PS. The dot of a regular expression
  without the \<open>s\<close> flag matches every code unit but these.\<close>

definition isLineTerminator :: "nat \<Rightarrow> bool" where
  "isLineTerminator c = (c = 10 \<or> c = 13 \<or> c = 8232 \<or> c = 8233)"

text \<open>WhiteSpace and LineTerminator of ECMAScript: what \<open>\s\<close> matches and what
  \<open>String.prototype.trim\<close> strips (TAB, VT, FF, SP, NBSP, the category Zs, ZWNBSP,
  and the line terminators).\<close>

definition isWhiteSpace :: "nat \<Rightarrow> bool" where
  "isWhiteSpace c =
     (c = 9 \<or> c = 11 \<or> c = 12 \<or> c = 32 \<or> c = 160 \<or> c = 5760
      \<or> (8192 \<le> c \<and> c \<le> 8202) \<or> c = 8239 \<or> c = 8287 \<or> c = 12288 \<or> c = 65279
      \<or> isLineTerminator c)"

definition trim :: "jsstring \<Rightarrow> jsstring" where
  "trim s = rev (dropWhile isWhiteSpace (rev (dropWhile isWhiteSpace s)))"

text \<open>\<open>s.includes(q)\<close>: \<open>q\<close> occurs in \<open>s\<close> at some position.\<close>

fun str_includes :: "jsstring \<Rightarrow> jsstring \<Rightarrow> bool" where
  "str_includes [] q = (q = [])"
| "str_includes (c # cs) q = (prefix q (c # cs) \<or> str_includes cs q)"

text \<open>\<open>content.split("\n")\<close>: the pieces between the line feeds; the empty string
  splits into one empty line.\<close>

fun split_nl :: "jsstring \<Rightarrow> jsstring list" where
  "split_nl [] = [[]]"
| "split_nl (c # cs) =
     (if c = 10 then [] # split_nl cs
      else (case split_nl cs of [] \<Rightarrow> [[c]] | l # ls \<Rightarrow> (c # l) # ls))"

section \<open>The five regular expressions\<close>

text \<open>
  A matcher answers, for the rest of the line at a candidate start position, whether the
  regular expression matches there, and if so with what length of \<open>m[0]\<close> and what
  captures \<open>m[1]\<close>, \<open>m[2]\<close> (the second one is empty for the patterns with one group, where
  the code never reads it).
\<close>

type_synonym matcher = "jsstring \<Rightarrow> (nat \<times> jsstring \<times> jsstring) option"

text \<open>Canonicalize of a non-Unicode \<open>i\<close> regular expression, on the code units that can
  equal a canonicalised ASCII letter: a code unit of 128 or more never canonicalises to
  one below 128, so only the ASCII lower-case letters move.\<close>

definition canonicalize :: "nat \<Rightarrow> nat" where
  "canonicalize c = (if 97 \<le> c \<and> c \<le> 122 then c - 32 else c)"

text \<open>A literal of the pattern at the head of the string; the rest after it.\<close>

fun literal :: "bool \<Rightarrow> jsstring \<Rightarrow> jsstring \<Rightarrow> jsstring option" where
  "literal ic [] s = Some s"
| "literal ic (p # ps) [] = None"
| "literal ic (p # ps) (c # cs) =
     (if (if ic then canonicalize c = canonicalize p else c = p)
      then literal ic ps cs else None)"

text \<open>\<open>(.*?)\<close> followed by the closing literal: the shortest run of code units other
  than line terminators after which the closing literal stands.\<close>

fun lazyDots :: "bool \<Rightarrow> jsstring \<Rightarrow> jsstring \<Rightarrow> jsstring option" where
  "lazyDots ic close [] = (if literal ic close [] \<noteq> None then Some [] else None)"
| "lazyDots ic close (c # cs) =
     (if literal ic close (c # cs) \<noteq> None then Some []
      else if isLineTerminator c then None
      else map_option (Cons c) (lazyDots ic close cs))"

text \<open>\<open>open(.*?)close\<close>, for \<open>/==(.*?)==/g\<close>, \<open>/<mark>(.*?)<\/mark>/gi\<close>,
  \<open>/%%(.*?)%%/g\<close> and \<open>/<!--(.*?)-->/g\<close>.\<close>

definition delimited :: "bool \<Rightarrow> jsstring \<Rightarrow> jsstring \<Rightarrow> matcher" where
  "delimited ic opn close s =
     (case literal ic opn s of
        None \<Rightarrow> None
      | Some rest \<Rightarrow>
          (case lazyDots ic close rest of
             None \<Rightarrow> None
           | Some inner \<Rightarrow> Some (length opn + length inner + length close, inner, [])))"

text \<open>\<open>/\[\^([^\]]+)\]:\s*(.*)/g\<close>: the id is the run of code units up to the first
  \<open>]\<close> and must not be empty, \<open>\s*\<close> takes all the white space after the colon, and
  \<open>(.*)\<close> runs up to the first line terminator or the end of the line.\<close>

definition footnoteDef :: matcher where
  "footnoteDef s =
     (case literal False (js ''[^'') s of
        None \<Rightarrow> None
      | Some rest \<Rightarrow>
          (let ident = takeWhile (\<lambda>c. c \<noteq> 93) rest in
           if ident = [] then None
           else (case literal False (js '']:'') (drop (length ident) rest) of
                   None \<Rightarrow> None
                 | Some rest2 \<Rightarrow>
                     (let ws = takeWhile isWhiteSpace rest2;
                          body = takeWhile (\<lambda>c. \<not> isLineTerminator c)
                                   (dropWhile isWhiteSpace rest2)
                      in Some (2 + length ident + 2 + length ws + length body, ident, body)))))"

text \<open>
  \<open>line.matchAll(re)\<close> with a global regular expression: the leftmost match from
  \<open>lastIndex\<close> on, then again from the end of that match. \<open>scan m p skip s\<close> stands at
  index \<open>p\<close> with \<open>s\<close> the rest of the line; \<open>skip\<close> counts the code units of the last
  match still to pass (an empty match advances by one, as \<open>matchAll\<close> does). A result is
  \<open>(m.index, m[0].length, m[1], m[2])\<close>.
\<close>

type_synonym rmatch = "nat \<times> nat \<times> jsstring \<times> jsstring"

fun scan :: "matcher \<Rightarrow> nat \<Rightarrow> nat \<Rightarrow> jsstring \<Rightarrow> rmatch list" where
  "scan m p skip [] =
     (if skip = 0
      then (case m [] of None \<Rightarrow> [] | Some (len, g1, g2) \<Rightarrow> [(p, len, g1, g2)])
      else [])"
| "scan m p skip (c # cs) =
     (if 0 < skip then scan m (Suc p) (skip - 1) cs
      else (case m (c # cs) of
              None \<Rightarrow> scan m (Suc p) 0 cs
            | Some (len, g1, g2) \<Rightarrow> (p, len, g1, g2) # scan m (Suc p) (len - 1) cs))"

definition matchAll :: "matcher \<Rightarrow> jsstring \<Rightarrow> rmatch list" where
  "matchAll m s = scan m 0 0 s"

section \<open>The parser\<close>

datatype ItemType = Highlight | Comment | Footnote

record ParsedItem =
  type :: ItemType
  "text" :: jsstring
  line :: nat
  ch :: nat
  matchLength :: nat

text \<open>The body of the loop over the lines of \<open>parseContent\<close>: the five
  \<open>for (const m of line.matchAll(...)) items.push(...)\<close> loops, in the order of the source.\<close>

definition parseLine :: "nat \<Rightarrow> jsstring \<Rightarrow> ParsedItem list" where
  "parseLine lineIdx l =
     map (\<lambda>(i, n, m1, m2).
            \<lparr>type = Highlight, text = m1, line = lineIdx, ch = i, matchLength = n\<rparr>)
         (matchAll (delimited False (js ''=='') (js ''=='')) l)
     @ map (\<lambda>(i, n, m1, m2).
            \<lparr>type = Highlight, text = m1, line = lineIdx, ch = i, matchLength = n\<rparr>)
         (matchAll (delimited True (js ''<mark>'') (js ''</mark>'')) l)
     @ map (\<lambda>(i, n, m1, m2).
            \<lparr>type = Comment, text = trim m1, line = lineIdx, ch = i, matchLength = n\<rparr>)
         (matchAll (delimited False (js ''%%'') (js ''%%'')) l)
     @ map (\<lambda>(i, n, m1, m2).
            \<lparr>type = Comment, text = trim m1, line = lineIdx, ch = i, matchLength = n\<rparr>)
         (matchAll (delimited False (js ''<!--'') (js ''-->'')) l)
     @ map (\<lambda>(i, n, m1, m2).
            \<lparr>type = Footnote, text = js ''[^'' @ m1 @ js '']: '' @ m2,
             line = lineIdx, ch = i, matchLength = n\<rparr>)
         (matchAll footnoteDef l)"

definition parseContent :: "jsstring \<Rightarrow> ParsedItem list" where
  "parseContent content =
     concat (map (\<lambda>(lineIdx, l). parseLine lineIdx l) (enumerate 0 (split_nl content)))"

section \<open>Sorting\<close>

text \<open>
  A sort order is the string the code switches on; the type \<open>SortOrder\<close> of the source
  names four of them, and a value read back from the saved data can be any string.
\<close>

type_synonym SortOrder = jsstring

text \<open>
  \<open>Array.prototype.sort\<close> with a comparator is stable: the result is ordered by the
  comparator and elements that compare equal keep their input order. Inserting the
  elements from the right end, each before the first element it does not follow, computes
  that arrangement.
\<close>

fun insertBy :: "('a \<Rightarrow> 'a \<Rightarrow> int) \<Rightarrow> 'a \<Rightarrow> 'a list \<Rightarrow> 'a list" where
  "insertBy cmp x [] = [x]"
| "insertBy cmp x (y # ys) = (if cmp x y \<le> 0 then x # y # ys else y # insertBy cmp x ys)"

definition array_sort :: "('a \<Rightarrow> 'a \<Rightarrow> int) \<Rightarrow> 'a list \<Rightarrow> 'a list" where
  "array_sort cmp xs = foldr (insertBy cmp) xs []"

text \<open>\<open>(a, b) => a.line - b.line || a.ch - b.ch\<close> and its mirror image.\<close>

definition cmpLineAsc :: "ParsedItem \<Rightarrow> ParsedItem \<Rightarrow> int" where
  "cmpLineAsc a b =
     (if int (line a) - int (line b) \<noteq> 0 then int (line a) - int (line b)
      else int (ch a) - int (ch b))"

definition cmpLineDesc :: "ParsedItem \<Rightarrow> ParsedItem \<Rightarrow> int" where
  "cmpLineDesc a b =
     (if int (line b) - int (line a) \<noteq> 0 then int (line b) - int (line a)
      else int (ch b) - int (ch a))"

text \<open>
  \<open>sortItems\<close>. The comparison \<open>a.localeCompare(b, undefined, {sensitivity: "base"})\<close>
  belongs to the host's collation tables and is the parameter \<open>localeCompare\<close>.
  The \<open>default\<close> branch returns the copy as it is.
\<close>

definition sortItems ::
  "(jsstring \<Rightarrow> jsstring \<Rightarrow> int) \<Rightarrow> ParsedItem list \<Rightarrow> SortOrder \<Rightarrow> ParsedItem list" where
  "sortItems localeCompare items order =
     (if order = js ''line-asc'' then array_sort cmpLineAsc items
      else if order = js ''line-desc'' then array_sort cmpLineDesc items
      else if order = js ''a-z''
        then array_sort (\<lambda>a b. localeCompare (text a) (text b)) items
      else if order = js ''z-a''
        then array_sort (\<lambda>a b. localeCompare (text b) (text a)) items
      else items)"

section \<open>Settings\<close>

record HighlightsSidebarSettings =
  fontSize :: int
  showHighlights :: bool
  showComments :: bool
  showFootnotes :: bool
  defaultSort :: SortOrder
  sectionsCollapsed :: "ItemType \<rightharpoonup> bool"
  sectionSorts :: "ItemType \<rightharpoonup> SortOrder"

definition DEFAULT_SETTINGS :: HighlightsSidebarSettings where
  "DEFAULT_SETTINGS =
     \<lparr>fontSize = 13, showHighlights = True, showComments = True, showFootnotes = True,
      defaultSort = js ''line-asc'',
      sectionsCollapsed = [Highlight \<mapsto> False, Comment \<mapsto> False, Footnote \<mapsto> False],
      sectionSorts = [Highlight \<mapsto> js ''line-asc'', Comment \<mapsto> js ''line-asc'',
                      Footnote \<mapsto> js ''line-asc'']\<rparr>"

text \<open>The object \<open>loadData()\<close> resolves to: every key may be missing. Keys the code
  does not know are copied by \<open>Object.assign\<close> and never read; they are left out.\<close>

record SavedData =
  saved_fontSize :: "int option"
  saved_showHighlights :: "bool option"
  saved_showComments :: "bool option"
  saved_showFootnotes :: "bool option"
  saved_defaultSort :: "SortOrder option"
  saved_sectionsCollapsed :: "(ItemType \<rightharpoonup> bool) option"
  saved_sectionSorts :: "(ItemType \<rightharpoonup> SortOrder) option"

definition noData :: SavedData where
  "noData =
     \<lparr>saved_fontSize = None, saved_showHighlights = None, saved_showComments = None,
      saved_showFootnotes = None, saved_defaultSort = None,
      saved_sectionsCollapsed = None, saved_sectionSorts = None\<rparr>"

text \<open>\<open>loadSettings\<close>: \<open>Object.assign({}, DEFAULT_SETTINGS, data)\<close> takes every key
  that \<open>data\<close> has from \<open>data\<close>, and the two nested objects are merged key by key over
  their defaults. \<open>None\<close> is the \<open>null\<close> of a first start.\<close>

definition loadSettings :: "SavedData option \<Rightarrow> HighlightsSidebarSettings" where
  "loadSettings data =
     (let d = (case data of None \<Rightarrow> noData | Some d \<Rightarrow> d) in
      \<lparr>fontSize = (case saved_fontSize d of None \<Rightarrow> fontSize DEFAULT_SETTINGS | Some v \<Rightarrow> v),
       showHighlights =
         (case saved_showHighlights d of None \<Rightarrow> showHighlights DEFAULT_SETTINGS | Some v \<Rightarrow> v),
       showComments =
         (case saved_showComments d of None \<Rightarrow> showComments DEFAULT_SETTINGS | Some v \<Rightarrow> v),
       showFootnotes =
         (case saved_showFootnotes d of None \<Rightarrow> showFootnotes DEFAULT_SETTINGS | Some v \<Rightarrow> v),
       defaultSort =
         (case saved_defaultSort d of None \<Rightarrow> defaultSort DEFAULT_SETTINGS | Some v \<Rightarrow> v),
       sectionsCollapsed =
         sectionsCollapsed DEFAULT_SETTINGS
           ++ (case saved_sectionsCollapsed d of None \<Rightarrow> Map.empty | Some m \<Rightarrow> m),
       sectionSorts =
         sectionSorts DEFAULT_SETTINGS
           ++ (case saved_sectionSorts d of None \<Rightarrow> Map.empty | Some m \<Rightarrow> m)\<rparr>)"

text \<open>The commands "Increase sidebar font size" and "Decrease sidebar font size".\<close>

definition increaseFontSize :: "HighlightsSidebarSettings \<Rightarrow> HighlightsSidebarSettings" where
  "increaseFontSize s = s\<lparr>fontSize := min 24 (fontSize s + 1)\<rparr>"

definition decreaseFontSize :: "HighlightsSidebarSettings \<Rightarrow> HighlightsSidebarSettings" where
  "decreaseFontSize s = s\<lparr>fontSize := max 10 (fontSize s - 1)\<rparr>"

text \<open>The \<open>onChange\<close> handler of the "Default sort order" dropdown of the settings tab.\<close>

definition setDefaultSort :: "SortOrder \<Rightarrow> HighlightsSidebarSettings \<Rightarrow> HighlightsSidebarSettings" where
  "setDefaultSort newSort s =
     s\<lparr>defaultSort := newSort,
       sectionSorts := (sectionSorts s)(Highlight \<mapsto> newSort, Comment \<mapsto> newSort,
                                        Footnote \<mapsto> newSort)\<rparr>"

text \<open>The click handler of a sort menu entry: one section's order.\<close>

definition setSectionSort ::
  "ItemType \<Rightarrow> SortOrder \<Rightarrow> HighlightsSidebarSettings \<Rightarrow> HighlightsSidebarSettings" where
  "setSectionSort t order s = s\<lparr>sectionSorts := (sectionSorts s)(t \<mapsto> order)\<rparr>"

fun isSectionVisible :: "HighlightsSidebarSettings \<Rightarrow> ItemType \<Rightarrow> bool" where
  "isSectionVisible s Highlight = showHighlights s"
| "isSectionVisible s Comment = showComments s"
| "isSectionVisible s Footnote = showFootnotes s"

fun toggleSectionVisibility :: "ItemType \<Rightarrow> HighlightsSidebarSettings \<Rightarrow> HighlightsSidebarSettings" where
  "toggleSectionVisibility Highlight s = s\<lparr>showHighlights := \<not> showHighlights s\<rparr>"
| "toggleSectionVisibility Comment s = s\<lparr>showComments := \<not> showComments s\<rparr>"
| "toggleSectionVisibility Footnote s = s\<lparr>showFootnotes := \<not> showFootnotes s\<rparr>"

section \<open>Rendering the sections\<close>

text \<open>
  The first statement of \<open>renderSections\<close>: the query is lower-cased and trimmed, and a
  query that is then empty filters nothing. \<open>String.prototype.toLowerCase\<close> follows the
  Unicode case tables of the host and is the parameter \<open>toLowerCase\<close>.
\<close>

definition filteredItems ::
  "(jsstring \<Rightarrow> jsstring) \<Rightarrow> jsstring \<Rightarrow> ParsedItem list \<Rightarrow> ParsedItem list" where
  "filteredItems toLowerCase searchQuery allItems =
     (let query = trim (toLowerCase searchQuery) in
      if 0 < length query
      then filter (\<lambda>item. str_includes (toLowerCase (text item)) query) allItems
      else allItems)"

text \<open>\<open>sectionSorts[sec.type] || defaultSort\<close>: a missing or empty entry is falsy.\<close>

definition sectionSortOrder :: "HighlightsSidebarSettings \<Rightarrow> ItemType \<Rightarrow> SortOrder" where
  "sectionSortOrder s t =
     (case sectionSorts s t of
        None \<Rightarrow> defaultSort s
      | Some order \<Rightarrow> if order = [] then defaultSort s else order)"

text \<open>What \<open>renderSections\<close> puts into the container: one of the two messages, or the
  sections, each with its header (label and count, sort order, collapsed state) and the
  rows of its list.\<close>

record Section =
  secType :: ItemType
  label :: string
  count :: nat
  sortOrder :: SortOrder
  collapsed :: bool
  rows :: "ParsedItem list"

datatype Rendered = Message string | Sections "Section list"

definition sectionMeta :: "(ItemType \<times> string) list" where
  "sectionMeta = [(Highlight, ''Highlights''), (Comment, ''Comments''), (Footnote, ''Footnotes'')]"

definition renderSection ::
  "(jsstring \<Rightarrow> jsstring \<Rightarrow> int) \<Rightarrow> HighlightsSidebarSettings \<Rightarrow> ParsedItem list
     \<Rightarrow> ItemType \<times> string \<Rightarrow> Section list" where
  "renderSection localeCompare s filtered sec =
     (case sec of (t, lbl) \<Rightarrow>
        if \<not> isSectionVisible s t then []
        else (let groupItems = filter (\<lambda>item. type item = t) filtered in
              if length groupItems = 0 then []
              else [\<lparr>secType = t, label = lbl, count = length groupItems,
                     sortOrder = sectionSortOrder s t,
                     collapsed = (case sectionsCollapsed s t of None \<Rightarrow> False | Some b \<Rightarrow> b),
                     rows = sortItems localeCompare groupItems (sectionSortOrder s t)\<rparr>]))"

definition renderSections ::
  "(jsstring \<Rightarrow> jsstring) \<Rightarrow> (jsstring \<Rightarrow> jsstring \<Rightarrow> int) \<Rightarrow> HighlightsSidebarSettings
     \<Rightarrow> jsstring \<Rightarrow> ParsedItem list \<Rightarrow> Rendered" where
  "renderSections toLowerCase localeCompare s searchQuery allItems =
     (let query = trim (toLowerCase searchQuery);
          filtered = filteredItems toLowerCase searchQuery allItems in
      if length filtered = 0 \<and> length allItems = 0
      then Message ''No highlights, comments, or footnotes found.''
      else if length filtered = 0 \<and> 0 < length query
      then Message ''No matching items.''
      else Sections (concat (map (renderSection localeCompare s filtered) sectionMeta)))"

text \<open>\<open>renderContent\<close>, as far as the sections go: without an active note the message,
  otherwise the sections of the parsed text of the editor.\<close>

definition renderContent ::
  "(jsstring \<Rightarrow> jsstring) \<Rightarrow> (jsstring \<Rightarrow> jsstring \<Rightarrow> int) \<Rightarrow> HighlightsSidebarSettings
     \<Rightarrow> jsstring \<Rightarrow> jsstring option \<Rightarrow> Rendered" where
  "renderContent toLowerCase localeCompare s searchQuery activeView =
     (case activeView of
        None \<Rightarrow> Message ''Open a note to see its highlights, comments, and footnotes.''
      | Some content \<Rightarrow>
          renderSections toLowerCase localeCompare s searchQuery (parseContent content))"

text \<open>
  Two concrete functions to run the parameters on: lower-casing of the ASCII letters and
  the comparison of the lower-cased code units. On strings of ASCII letters and digits
  \<open>toLowerCase\<close> is the first, and the base-sensitive \<open>localeCompare\<close> has the sign
  of the second.
\<close>

definition asciiLower :: "jsstring \<Rightarrow> jsstring" where
  "asciiLower s = map (\<lambda>c. if 65 \<le> c \<and> c \<le> 90 then c + 32 else c) s"

fun asciiCompare :: "jsstring \<Rightarrow> jsstring \<Rightarrow> int" where
  "asciiCompare [] [] = 0"
| "asciiCompare [] (y # ys) = - 1"
| "asciiCompare (x # xs) [] = 1"
| "asciiCompare (x # xs) (y # ys) =
     (if asciiLower [x] = asciiLower [y] then asciiCompare xs ys
      else if hd (asciiLower [x]) < hd (asciiLower [y]) then - 1 else 1)"

text \<open>A string with no white space at either end.\<close>

definition noOuterWhiteSpace :: "jsstring \<Rightarrow> bool" where
  "noOuterWhiteSpace s = (s = [] \<or> (\<not> isWhiteSpace (hd s) \<and> \<not> isWhiteSpace (last s)))"

text \<open>The four sort orders the code knows.\<close>

definition knownOrders :: "SortOrder list" where
  "knownOrders = [js ''line-asc'', js ''line-desc'', js ''a-z'', js ''z-a'']"

text \<open>The span of a record: the code units that \<open>scrollToItem\<close> selects, on the line
  of the record from \<open>ch\<close> to \<open>ch + matchLength\<close>.\<close>

definition span :: "jsstring \<Rightarrow> ParsedItem \<Rightarrow> jsstring" where
  "span content item =
     take (matchLength item) (drop (ch item) (split_nl content ! line item))"

section \<open>Evaluation on concrete inputs\<close>

lemmas eval_defs =
  js_def parseContent_def parseLine_def matchAll_def delimited_def footnoteDef_def
  isLineTerminator_def isWhiteSpace_def canonicalize_def trim_def enumerate_eq_zip

lemmas sort_eval_defs =
  sortItems_def array_sort_def cmpLineAsc_def cmpLineDesc_def js_def

section \<open>The parser on the documents of the specification\<close>

text \<open>
  C1. The document \<open>==alpha== and <mark>beta</mark>\<close>, \<open>%%note one%%\<close>,
  \<open>[^1]: see appendix\<close> (three lines) parses into four records, in this order: the
  highlight "alpha" at line 0, column 0; the highlight "beta" at line 0, column 14, where
  \<open><mark>\<close> begins; the comment "note one" at line 1, column 0; the footnote
  "[^1]: see appendix" at line 2, column 0. The match lengths are 9, 17, 12 and 18.
\<close>

theorem parse_example_document:
  "parseContent (js ''==alpha== and <mark>beta</mark>'' @ [10] @ js ''%%note one%%''
                 @ [10] @ js ''[^1]: see appendix'') =
     [\<lparr>type = Highlight, text = js ''alpha'', line = 0, ch = 0, matchLength = 9\<rparr>,
      \<lparr>type = Highlight, text = js ''beta'', line = 0, ch = 14, matchLength = 17\<rparr>,
      \<lparr>type = Comment, text = js ''note one'', line = 1, ch = 0, matchLength = 12\<rparr>,
      \<lparr>type = Footnote, text = js ''[^1]: see appendix'', line = 2, ch = 0,
       matchLength = 18\<rparr>]"
  by (simp add: eval_defs)

text \<open>
  C2, as the code has it. On the line \<open>==a==b==c==\<close> the first match is \<open>==a==\<close>; the
  search goes on after it, at \<open>b==c==\<close>, where the next \<open>==\<close> opens \<open>==c==\<close>. The two
  highlights are "a" at column 0 and "c" at column 6, and \<open>b\<close> lies between the matches.
\<close>

theorem parse_adjacent_highlights:
  "parseContent (js ''==a==b==c=='') =
     [\<lparr>type = Highlight, text = js ''a'', line = 0, ch = 0, matchLength = 5\<rparr>,
      \<lparr>type = Highlight, text = js ''c'', line = 0, ch = 6, matchLength = 5\<rparr>]"
  by (simp add: eval_defs)

text \<open>C2, as the specification words it, fails: the texts are not "a" and then "b".\<close>

theorem parse_adjacent_highlights_not_a_b:
  "map text (parseContent (js ''==a==b==c=='')) \<noteq> [js ''a'', js ''b'']"
  by (simp add: eval_defs)

section \<open>Settings\<close>

text \<open>
  C6, as the code has it. \<open>loadSettings\<close> takes the saved font size as it is: whatever
  number the saved data holds under \<open>fontSize\<close> is the font size after the load. The
  bounds are kept by the two font-size commands, which never go above 24 and never below
  10.
\<close>

theorem load_keeps_saved_font_size:
  "fontSize (loadSettings (Some (d\<lparr>saved_fontSize := Some n\<rparr>))) = n
   \<and> fontSize (increaseFontSize s) \<le> 24 \<and> 10 \<le> fontSize (decreaseFontSize s)"
  by (simp add: loadSettings_def increaseFontSize_def decreaseFontSize_def)

text \<open>C6, as the specification words it, fails: saved data with the font size 999 loads
  as 999, not as 24.\<close>

theorem load_font_size_999_not_clamped:
  "fontSize (loadSettings (Some (noData\<lparr>saved_fontSize := Some 999\<rparr>))) = 999
   \<and> fontSize (loadSettings (Some (noData\<lparr>saved_fontSize := Some 999\<rparr>))) \<noteq> 24"
  by (simp add: loadSettings_def)

text \<open>
  C7. Choosing the default sort order \<open>X\<close> in the settings tab sets \<open>defaultSort\<close> to
  \<open>X\<close> and the sort order of each of the three sections to \<open>X\<close>, whatever the sections
  had before; the order a section is then rendered with is \<open>X\<close>.
\<close>

theorem set_default_sort_resets_sections:
  "defaultSort (setDefaultSort X s) = X
   \<and> sectionSorts (setDefaultSort X s) Highlight = Some X
   \<and> sectionSorts (setDefaultSort X s) Comment = Some X
   \<and> sectionSorts (setDefaultSort X s) Footnote = Some X
   \<and> sectionSortOrder (setDefaultSort X s) t = X"
  by (cases t) (simp_all add: setDefaultSort_def sectionSortOrder_def)

section \<open>Sorting\<close>

text \<open>
  C5, as the code has it. With a sort order that is none of the four known ones,
  \<open>sortItems\<close> does not fail and returns the records in the order it was given them.
\<close>

theorem sort_unknown_order_keeps_input:
  "order \<notin> set knownOrders \<Longrightarrow> sortItems localeCompare items order = items"
  by (simp add: sortItems_def knownOrders_def)

theorem sort_unknown_order_keeps_input_witness:
  "js ''newest'' \<notin> set knownOrders
   \<and> sortItems asciiCompare
        [\<lparr>type = Comment, text = js ''b'', line = 1, ch = 0, matchLength = 5\<rparr>,
         \<lparr>type = Comment, text = js ''a'', line = 0, ch = 0, matchLength = 5\<rparr>]
        (js ''newest'') =
       [\<lparr>type = Comment, text = js ''b'', line = 1, ch = 0, matchLength = 5\<rparr>,
        \<lparr>type = Comment, text = js ''a'', line = 0, ch = 0, matchLength = 5\<rparr>]"
proof -
  have h: "js ''newest'' \<notin> set knownOrders"
    by (simp add: knownOrders_def js_def)
  show ?thesis
    using h sort_unknown_order_keeps_input [OF h] by simp
qed

text \<open>C5, as the specification words it, fails: on two records in descending line order
  an unknown sort order gives the input back, and \<open>line-asc\<close> gives the other order.\<close>

theorem sort_unknown_order_is_not_line_asc:
  "sortItems asciiCompare
     [\<lparr>type = Comment, text = js ''b'', line = 1, ch = 0, matchLength = 5\<rparr>,
      \<lparr>type = Comment, text = js ''a'', line = 0, ch = 0, matchLength = 5\<rparr>]
     (js ''newest'')
   \<noteq> sortItems asciiCompare
     [\<lparr>type = Comment, text = js ''b'', line = 1, ch = 0, matchLength = 5\<rparr>,
      \<lparr>type = Comment, text = js ''a'', line = 0, ch = 0, matchLength = 5\<rparr>]
     (js ''line-asc'')"
  by (simp add: sort_eval_defs)

section \<open>The order of the parser's output\<close>





lemma line_parseLine: "item \<in> set (parseLine i l) \<Longrightarrow> line item = i"
  by (auto simp: parseLine_def)







section \<open>Trimming\<close>

lemma noOuterWhiteSpace_trim: "noOuterWhiteSpace (trim s)"
proof -
  define t where "t = dropWhile isWhiteSpace s"
  define u where "u = dropWhile isWhiteSpace (rev t)"
  have tr: "trim s = rev u" by (simp add: trim_def t_def u_def)
  show ?thesis
  proof (cases "u = []")
    case True
    then show ?thesis by (simp add: tr noOuterWhiteSpace_def)
  next
    case False
    have hu: "\<not> isWhiteSpace (hd u)"
      using False unfolding u_def by (rule hd_dropWhile)
    have "rev t = takeWhile isWhiteSpace (rev t) @ u"
      by (simp add: u_def)
    then have "last (rev t) = last u"
      using False by (metis last_appendR)
    moreover have "t \<noteq> []" using False by (auto simp: u_def)
    ultimately have "last u = hd t" by (simp add: last_rev)
    moreover have "\<not> isWhiteSpace (hd t)"
      using \<open>t \<noteq> []\<close> unfolding t_def by (rule hd_dropWhile)
    ultimately have "\<not> isWhiteSpace (last u)" by simp
    with hu False show ?thesis
      by (simp add: tr noOuterWhiteSpace_def hd_rev last_rev)
  qed
qed

section \<open>Filtering\<close>

lemma str_includes_sublist: "str_includes s q \<longleftrightarrow> sublist q s"
  by (induction s) (simp_all add: sublist_Cons_right)

text \<open>
  C8. The query is lower-cased and trimmed. When it is then empty, the filter returns the
  records as they are; otherwise it keeps exactly the records whose lower-cased text
  contains the lower-cased, trimmed query as a substring, in their order. In both cases
  the result is a subsequence of the input.
\<close>

theorem filter_by_query:
  "filteredItems toLowerCase searchQuery items =
     (if trim (toLowerCase searchQuery) = [] then items
      else filter (\<lambda>item. sublist (trim (toLowerCase searchQuery)) (toLowerCase (text item)))
             items)
   \<and> subseq (filteredItems toLowerCase searchQuery items) items"
  by (simp add: filteredItems_def Let_def str_includes_sublist)

theorem filter_by_query_witness:
  "filteredItems asciiLower (js '' Note '')
     [\<lparr>type = Highlight, text = js ''alpha'', line = 0, ch = 0, matchLength = 9\<rparr>,
      \<lparr>type = Highlight, text = js ''beta'', line = 0, ch = 14, matchLength = 17\<rparr>,
      \<lparr>type = Comment, text = js ''note one'', line = 1, ch = 0, matchLength = 12\<rparr>,
      \<lparr>type = Footnote, text = js ''[^1]: see appendix'', line = 2, ch = 0,
       matchLength = 18\<rparr>]
   = [\<lparr>type = Comment, text = js ''note one'', line = 1, ch = 0, matchLength = 12\<rparr>]
   \<and> subseq [\<lparr>type = Comment, text = js ''note one'', line = 1, ch = 0, matchLength = 12\<rparr>]
     [\<lparr>type = Highlight, text = js ''alpha'', line = 0, ch = 0, matchLength = 9\<rparr>,
      \<lparr>type = Highlight, text = js ''beta'', line = 0, ch = 14, matchLength = 17\<rparr>,
      \<lparr>type = Comment, text = js ''note one'', line = 1, ch = 0, matchLength = 12\<rparr>,
      \<lparr>type = Footnote, text = js ''[^1]: see appendix'', line = 2, ch = 0,
       matchLength = 18\<rparr>]"
proof -
  let ?items =
    "[\<lparr>type = Highlight, text = js ''alpha'', line = 0, ch = 0, matchLength = 9\<rparr>,
      \<lparr>type = Highlight, text = js ''beta'', line = 0, ch = 14, matchLength = 17\<rparr>,
      \<lparr>type = Comment, text = js ''note one'', line = 1, ch = 0, matchLength = 12\<rparr>,
      \<lparr>type = Footnote, text = js ''[^1]: see appendix'', line = 2, ch = 0,
       matchLength = 18\<rparr>]"
  have ev: "filteredItems asciiLower (js '' Note '') ?items
            = [\<lparr>type = Comment, text = js ''note one'', line = 1, ch = 0, matchLength = 12\<rparr>]"
    by (simp add: filteredItems_def asciiLower_def js_def trim_def isWhiteSpace_def
        isLineTerminator_def)
  have "subseq (filteredItems asciiLower (js '' Note '') ?items) ?items"
    using filter_by_query [of asciiLower "js '' Note ''" ?items] by (rule conjunct2)
  then show ?thesis by (simp only: ev simp_thms)
qed

section \<open>The sections of the sidebar\<close>

lemma renderSection_cases:
  "renderSection lc s fi (t, lbl) =
     (if isSectionVisible s t \<and> filter (\<lambda>item. type item = t) fi \<noteq> []
      then [\<lparr>secType = t, label = lbl, count = length (filter (\<lambda>item. type item = t) fi),
             sortOrder = sectionSortOrder s t,
             collapsed = (case sectionsCollapsed s t of None \<Rightarrow> False | Some b \<Rightarrow> b),
             rows = sortItems lc (filter (\<lambda>item. type item = t) fi) (sectionSortOrder s t)\<rparr>]
      else [])"
  by (simp add: renderSection_def Let_def)

lemma secType_renderSection:
  "map secType (renderSection lc s fi (t, lbl)) =
     (if isSectionVisible s t \<and> filter (\<lambda>item. type item = t) fi \<noteq> [] then [t] else [])"
  by (simp add: renderSection_cases)

lemma renderSections_nonempty:
  assumes "filteredItems lower q allItems \<noteq> []"
  shows "renderSections lower lc s q allItems =
           Sections (renderSection lc s (filteredItems lower q allItems) (Highlight, ''Highlights'')
                     @ renderSection lc s (filteredItems lower q allItems) (Comment, ''Comments'')
                     @ renderSection lc s (filteredItems lower q allItems) (Footnote, ''Footnotes''))"
  using assms by (simp add: renderSections_def Let_def sectionMeta_def)

lemma sections_characterised:
  assumes "filteredItems lower q allItems \<noteq> []"
  shows "\<exists>secs. renderSections lower lc s q allItems = Sections secs
           \<and> distinct (map secType secs)
           \<and> (\<forall>t. (\<exists>sec\<in>set secs. secType sec = t)
                    \<longleftrightarrow> (isSectionVisible s t
                         \<and> filter (\<lambda>item. type item = t) (filteredItems lower q allItems) \<noteq> []))
           \<and> (\<forall>sec\<in>set secs.
                  count sec = length (filter (\<lambda>item. type item = secType sec)
                                        (filteredItems lower q allItems))
                  \<and> rows sec = sortItems lc (filter (\<lambda>item. type item = secType sec)
                                               (filteredItems lower q allItems))
                                  (sectionSortOrder s (secType sec)))"
proof -
  let ?fi = "filteredItems lower q allItems"
  let ?secs = "renderSection lc s ?fi (Highlight, ''Highlights'')
               @ renderSection lc s ?fi (Comment, ''Comments'')
               @ renderSection lc s ?fi (Footnote, ''Footnotes'')"
  have r: "renderSections lower lc s q allItems = Sections ?secs"
    using assms by (rule renderSections_nonempty)
  have d: "distinct (map secType ?secs)"
    by (auto simp: secType_renderSection)
  have v: "(\<exists>sec\<in>set ?secs. secType sec = t)
            \<longleftrightarrow> (isSectionVisible s t \<and> filter (\<lambda>item. type item = t) ?fi \<noteq> [])" for t
    by (cases t) (auto simp: renderSection_cases)
  have c: "\<forall>sec\<in>set ?secs.
             count sec = length (filter (\<lambda>item. type item = secType sec) ?fi)
             \<and> rows sec = sortItems lc (filter (\<lambda>item. type item = secType sec) ?fi)
                             (sectionSortOrder s (secType sec))"
    by (auto simp: renderSection_cases)
  show ?thesis using r d v c by blast
qed

text \<open>
  C9, as the code has it. When at least one record passes the filter, the sidebar shows
  sections, at most one for each category, and there is a section for a category exactly
  when the category is visible and at least one record of it passed the filter: a hidden
  category has no section however many of its records match, and a visible category
  without a matching record has none either. Each section carries the number of its
  records that passed the filter and these records sorted by the order of the section.
\<close>

theorem sections_for_visible_nonempty_categories:
  assumes "filteredItems toLowerCase searchQuery (parseContent content) \<noteq> []"
  shows "\<exists>secs. renderContent toLowerCase localeCompare s searchQuery (Some content) = Sections secs
           \<and> distinct (map secType secs)
           \<and> (\<forall>t. (\<exists>sec\<in>set secs. secType sec = t)
                    \<longleftrightarrow> (isSectionVisible s t
                         \<and> filter (\<lambda>item. type item = t)
                             (filteredItems toLowerCase searchQuery (parseContent content)) \<noteq> []))
           \<and> (\<forall>sec\<in>set secs.
                  count sec = length (filter (\<lambda>item. type item = secType sec)
                                        (filteredItems toLowerCase searchQuery (parseContent content)))
                  \<and> rows sec = sortItems localeCompare
                                  (filter (\<lambda>item. type item = secType sec)
                                     (filteredItems toLowerCase searchQuery (parseContent content)))
                                  (sectionSortOrder s (secType sec)))"
  using sections_characterised [OF assms] by (simp add: renderContent_def)

theorem sections_for_visible_nonempty_categories_witness:
  "filteredItems asciiLower (js ''AL'') (parseContent (js ''==alpha== %%alp%% [^1]: x'')) =
     [\<lparr>type = Highlight, text = js ''alpha'', line = 0, ch = 0, matchLength = 9\<rparr>,
      \<lparr>type = Comment, text = js ''alp'', line = 0, ch = 10, matchLength = 7\<rparr>]
   \<and> (\<exists>secs. renderContent asciiLower asciiCompare (DEFAULT_SETTINGS\<lparr>showComments := False\<rparr>)
                (js ''AL'') (Some (js ''==alpha== %%alp%% [^1]: x'')) = Sections secs
              \<and> distinct (map secType secs))"
proof -
  have ev: "filteredItems asciiLower (js ''AL'') (parseContent (js ''==alpha== %%alp%% [^1]: x'')) =
     [\<lparr>type = Highlight, text = js ''alpha'', line = 0, ch = 0, matchLength = 9\<rparr>,
      \<lparr>type = Comment, text = js ''alp'', line = 0, ch = 10, matchLength = 7\<rparr>]"
    by (simp add: eval_defs filteredItems_def asciiLower_def)
  then have h: "filteredItems asciiLower (js ''AL'')
                  (parseContent (js ''==alpha== %%alp%% [^1]: x'')) \<noteq> []"
    by simp
  from sections_for_visible_nonempty_categories
         [OF h, of asciiCompare "DEFAULT_SETTINGS\<lparr>showComments := False\<rparr>"]
  obtain secs where
    "renderContent asciiLower asciiCompare (DEFAULT_SETTINGS\<lparr>showComments := False\<rparr>)
       (js ''AL'') (Some (js ''==alpha== %%alp%% [^1]: x'')) = Sections secs"
    "distinct (map secType secs)"
    by blast
  then show ?thesis using ev by blast
qed

text \<open>C9, as the specification words it, fails: with every category visible and the one
  highlight of \<open>==a==\<close> passing the empty query, the sidebar shows the section of the
  highlights only; the visible comments and footnotes have no section.\<close>

theorem visible_category_without_section:
  "isSectionVisible DEFAULT_SETTINGS Comment
   \<and> filteredItems asciiLower [] (parseContent (js ''==a=='')) =
       [\<lparr>type = Highlight, text = js ''a'', line = 0, ch = 0, matchLength = 5\<rparr>]
   \<and> renderContent asciiLower asciiCompare DEFAULT_SETTINGS [] (Some (js ''==a=='')) =
       Sections
        [\<lparr>secType = Highlight, label = ''Highlights'', count = 1,
          sortOrder = js ''line-asc'', collapsed = False,
          rows = [\<lparr>type = Highlight, text = js ''a'', line = 0, ch = 0, matchLength = 5\<rparr>]\<rparr>]"
  by (simp add: eval_defs filteredItems_def asciiLower_def DEFAULT_SETTINGS_def
      renderContent_def renderSections_def renderSection_def sectionMeta_def
      sectionSortOrder_def sortItems_def array_sort_def)

section \<open>Footnote definitions\<close>

lemma literal_False: "literal False p s = Some r \<longleftrightarrow> s = p @ r"
proof (induction p arbitrary: s)
  case Nil
  then show ?case by auto
next
  case (Cons a p)
  then show ?case by (cases s) auto
qed

lemma footnoteDef_Nil: "footnoteDef [] = None"
  by (simp add: footnoteDef_def js_def)

lemma footnoteDef_whole:
  assumes nolt: "\<forall>c\<in>set s. \<not> isLineTerminator c"
    and m: "footnoteDef s = Some (n, ident, body)"
  shows "n = length s
         \<and> (\<exists>ws. s = js ''[^'' @ ident @ js '']:'' @ ws @ body \<and> (\<forall>c\<in>set ws. isWhiteSpace c))"
proof -
  from m obtain rest where r1: "literal False (js ''[^'') s = Some rest"
    by (auto simp: footnoteDef_def split: option.splits)
  define idt where "idt = takeWhile (\<lambda>c. c \<noteq> 93) rest"
  from m r1 obtain rest2 where
    r2: "literal False (js '']:'') (drop (length idt) rest) = Some rest2"
    by (auto simp: footnoteDef_def Let_def idt_def split: option.splits if_splits)
  define ws where "ws = takeWhile isWhiteSpace rest2"
  define bd where "bd = takeWhile (\<lambda>c. \<not> isLineTerminator c) (dropWhile isWhiteSpace rest2)"
  from m r1 r2 have res: "n = 2 + length idt + 2 + length ws + length bd" "ident = idt" "body = bd"
    by (auto simp: footnoteDef_def Let_def idt_def ws_def bd_def split: option.splits if_splits)
  have s1: "s = js ''[^'' @ rest" using r1 by (simp add: literal_False)
  have d: "drop (length idt) rest = js '']:'' @ rest2" using r2 by (simp add: literal_False)
  have "take (length idt) rest = idt"
    unfolding idt_def by (rule takeWhile_eq_take [symmetric])
  then have s2: "rest = idt @ js '']:'' @ rest2"
    using d by (metis append_take_drop_id)
  have "set rest2 \<subseteq> set s" using s1 s2 by auto
  then have "\<forall>c\<in>set (dropWhile isWhiteSpace rest2). \<not> isLineTerminator c"
    using nolt set_dropWhileD by fastforce
  then have b: "bd = dropWhile isWhiteSpace rest2"
    unfolding bd_def by (simp add: takeWhile_eq_all_conv)
  have s3: "rest2 = ws @ bd" by (simp add: ws_def b)
  have w: "\<forall>c\<in>set ws. isWhiteSpace c"
    unfolding ws_def by (auto dest: set_takeWhileD)
  have "s = js ''[^'' @ idt @ js '']:'' @ ws @ bd" using s1 s2 s3 by simp
  moreover from this have "length s = 2 + length idt + 2 + length ws + length bd"
    by (simp add: js_def)
  ultimately show ?thesis using res w by auto
qed

lemma scan_skip: "length s \<le> skip \<Longrightarrow> m [] = None \<Longrightarrow> scan m p skip s = []"
proof (induction s arbitrary: p skip)
  case Nil
  then show ?case by simp
next
  case (Cons c cs)
  then show ?case by simp
qed


lemma scan_footnote:
  assumes "\<forall>c\<in>set s. \<not> isLineTerminator c"
  shows "scan footnoteDef p 0 s = []
         \<or> (\<exists>i n ident body ws.
               scan footnoteDef p 0 s = [(i, n, ident, body)]
               \<and> p \<le> i \<and> i + n = p + length s
               \<and> drop (i - p) s = js ''[^'' @ ident @ js '']:'' @ ws @ body
               \<and> (\<forall>c\<in>set ws. isWhiteSpace c)
               \<and> (\<forall>j<i - p. footnoteDef (drop j s) = None))"
  using assms
proof (induction s arbitrary: p)
  case Nil
  then show ?case by (simp add: footnoteDef_Nil)
next
  case (Cons c cs)
  show ?case
  proof (cases "footnoteDef (c # cs)")
    case None
    have sc: "scan footnoteDef p 0 (c # cs) = scan footnoteDef (Suc p) 0 cs"
      using None by simp
    have "\<forall>c\<in>set cs. \<not> isLineTerminator c" using Cons.prems by simp
    from Cons.IH [OF this, of "Suc p"] show ?thesis
    proof
      assume "scan footnoteDef (Suc p) 0 cs = []"
      then show ?thesis using sc by simp
    next
      assume "\<exists>i n ident body ws.
               scan footnoteDef (Suc p) 0 cs = [(i, n, ident, body)]
               \<and> Suc p \<le> i \<and> i + n = Suc p + length cs
               \<and> drop (i - Suc p) cs = js ''[^'' @ ident @ js '']:'' @ ws @ body
               \<and> (\<forall>c\<in>set ws. isWhiteSpace c)
               \<and> (\<forall>j<i - Suc p. footnoteDef (drop j cs) = None)"
      then obtain i n ident body ws where
        a: "scan footnoteDef (Suc p) 0 cs = [(i, n, ident, body)]"
        and b: "Suc p \<le> i" "i + n = Suc p + length cs"
        and c: "drop (i - Suc p) cs = js ''[^'' @ ident @ js '']:'' @ ws @ body"
        and d: "\<forall>c\<in>set ws. isWhiteSpace c"
        and e: "\<forall>j<i - Suc p. footnoteDef (drop j cs) = None"
        by blast
      have ip: "i - p = Suc (i - Suc p)" using b by simp
      have c': "drop (i - p) (c # cs) = js ''[^'' @ ident @ js '']:'' @ ws @ body"
        using c by (simp add: ip)
      have e': "\<forall>j<i - p. footnoteDef (drop j (c # cs)) = None"
      proof (intro allI impI)
        fix j assume "j < i - p"
        then show "footnoteDef (drop j (c # cs)) = None"
          using None e ip by (cases j) simp_all
      qed
      have "scan footnoteDef p 0 (c # cs) = [(i, n, ident, body)]
            \<and> p \<le> i \<and> i + n = p + length (c # cs)"
        using sc a b by simp
      then show ?thesis using c' d e' by blast
    qed
  next
    case (Some r)
    obtain n ident body where r: "r = (n, ident, body)" by (cases r) auto
    from footnoteDef_whole [OF Cons.prems Some [unfolded r]]
    obtain ws where n: "n = length (c # cs)"
      and w: "c # cs = js ''[^'' @ ident @ js '']:'' @ ws @ body" "\<forall>c\<in>set ws. isWhiteSpace c"
      by blast
    have "scan footnoteDef (Suc p) (n - 1) cs = []"
      by (rule scan_skip) (simp_all add: n footnoteDef_Nil)
    then have "scan footnoteDef p 0 (c # cs) = [(p, n, ident, body)]"
      using Some r by simp
    moreover have "p + n = p + length (c # cs)" using n by simp
    moreover have "drop (p - p) (c # cs) = js ''[^'' @ ident @ js '']:'' @ ws @ body"
      using w by simp
    moreover have "\<forall>j<p - p. footnoteDef (drop j (c # cs)) = None" by simp
    ultimately show ?thesis using w(2) by blast
  qed
qed

lemma footnotes_of_line:
  "filter (\<lambda>r. type r = Footnote) (parseLine i l) =
     map (\<lambda>(c, n, m1, m2).
            \<lparr>type = Footnote, text = js ''[^'' @ m1 @ js '']: '' @ m2,
             line = i, ch = c, matchLength = n\<rparr>)
         (matchAll footnoteDef l)"
  by (simp add: parseLine_def filter_map comp_def case_prod_beta)

lemma items_of_line:
  "filter (\<lambda>r. line r = i) (concat (map (\<lambda>(k, l). parseLine k l) (enumerate n ls))) =
     (if n \<le> i \<and> i < n + length ls then parseLine i (ls ! (i - n)) else [])"
proof (induction ls arbitrary: n)
  case Nil
  then show ?case by auto
next
  case (Cons l ls)
  have h: "filter (\<lambda>r. line r = i) (parseLine n l) = (if i = n then parseLine n l else [])"
    by (auto simp: filter_id_conv filter_empty_conv dest: line_parseLine)
  show ?case
  proof (cases "i = n")
    case True
    then show ?thesis using h Cons.IH [of "Suc n"] by simp
  next
    case False
    then show ?thesis using h Cons.IH [of "Suc n"] by (auto simp: nth_Cons')
  qed
qed

lemma footnotes_of_content_line:
  assumes "i < length (split_nl content)"
  shows "filter (\<lambda>r. type r = Footnote \<and> line r = i) (parseContent content) =
     map (\<lambda>(c, n, m1, m2).
            \<lparr>type = Footnote, text = js ''[^'' @ m1 @ js '']: '' @ m2,
             line = i, ch = c, matchLength = n\<rparr>)
         (scan footnoteDef 0 0 (split_nl content ! i))"
proof -
  have "filter (\<lambda>r. type r = Footnote \<and> line r = i) (parseContent content)
        = filter (\<lambda>r. type r = Footnote) (filter (\<lambda>r. line r = i) (parseContent content))"
    by (simp add: conj_commute)
  also have "filter (\<lambda>r. line r = i) (parseContent content) = parseLine i (split_nl content ! i)"
    unfolding parseContent_def using assms by (simp add: items_of_line)
  finally show ?thesis by (simp add: footnotes_of_line matchAll_def)
qed

text \<open>
  C10, as the code has it. Take a line of the document that holds no line terminator
  (no CR, U+2028 or U+2029; a line never holds a line feed). The parser emits at most one
  footnote record for it. That record starts at the first position of the line where the
  footnote pattern matches, and its match runs to the end of the line: column plus match
  length is the length of the line. From its column on, the line reads \<open>[^id]:\<close>, then
  white space, then the body, and the text of the record is \<open>[^id]: \<close> followed by that
  body; so whatever follows on the line, a second \<open>[^id]:\<close> included, is part of the text.
\<close>

theorem one_footnote_per_line:
  assumes i: "i < length (split_nl content)"
    and nolt: "\<forall>c\<in>set (split_nl content ! i). \<not> isLineTerminator c"
  shows "length (filter (\<lambda>r. type r = Footnote \<and> line r = i) (parseContent content)) \<le> 1
    \<and> (\<forall>r\<in>set (parseContent content). type r = Footnote \<and> line r = i \<longrightarrow>
          ch r + matchLength r = length (split_nl content ! i)
          \<and> (\<forall>j<ch r. footnoteDef (drop j (split_nl content ! i)) = None)
          \<and> (\<exists>ident ws body.
                drop (ch r) (split_nl content ! i) = js ''[^'' @ ident @ js '']:'' @ ws @ body
                \<and> (\<forall>c\<in>set ws. isWhiteSpace c)
                \<and> text r = js ''[^'' @ ident @ js '']: '' @ body))"
proof -
  let ?l = "split_nl content ! i"
  let ?fs = "filter (\<lambda>r. type r = Footnote \<and> line r = i) (parseContent content)"
  let ?mk = "\<lambda>(c, n, m1, m2).
            \<lparr>type = Footnote, text = js ''[^'' @ m1 @ js '']: '' @ m2,
             line = i, ch = c, matchLength = n\<rparr>"
  have fs: "?fs = map ?mk (scan footnoteDef 0 0 ?l)"
    using i by (rule footnotes_of_content_line)
  have mem: "r \<in> set ?fs" if "r \<in> set (parseContent content)" "type r = Footnote" "line r = i" for r
    using that by simp
  from scan_footnote [OF nolt, of 0] show ?thesis
  proof
    assume "scan footnoteDef 0 0 ?l = []"
    then have "?fs = []" using fs by simp
    then show ?thesis using mem by (metis empty_iff list.set(1) list.size(3) zero_le)
  next
    assume "\<exists>i n ident body ws.
               scan footnoteDef 0 0 ?l = [(i, n, ident, body)]
               \<and> 0 \<le> i \<and> i + n = 0 + length ?l
               \<and> drop (i - 0) ?l = js ''[^'' @ ident @ js '']:'' @ ws @ body
               \<and> (\<forall>c\<in>set ws. isWhiteSpace c)
               \<and> (\<forall>j<i - 0. footnoteDef (drop j ?l) = None)"
    then obtain k n ident body ws where
      a: "scan footnoteDef 0 0 ?l = [(k, n, ident, body)]"
      and b: "k + n = length ?l"
      and c: "drop k ?l = js ''[^'' @ ident @ js '']:'' @ ws @ body"
      and d: "\<forall>c\<in>set ws. isWhiteSpace c"
      and e: "\<forall>j<k. footnoteDef (drop j ?l) = None"
      by auto
    let ?r = "\<lparr>type = Footnote, text = js ''[^'' @ ident @ js '']: '' @ body,
             line = i, ch = k, matchLength = n\<rparr>"
    have one: "?fs = [?r]" using fs a by simp
    have each: "ch r + matchLength r = length ?l
          \<and> (\<forall>j<ch r. footnoteDef (drop j ?l) = None)
          \<and> (\<exists>ident ws body.
                drop (ch r) ?l = js ''[^'' @ ident @ js '']:'' @ ws @ body
                \<and> (\<forall>c\<in>set ws. isWhiteSpace c)
                \<and> text r = js ''[^'' @ ident @ js '']: '' @ body)"
      if "r \<in> set (parseContent content)" "type r = Footnote" "line r = i" for r
    proof -
      have "r = ?r" using mem [OF that] one by simp
      then show ?thesis using b c d e by auto
    qed
    show ?thesis
    proof (intro conjI ballI impI)
      show "length ?fs \<le> 1" using one by simp
    next
      fix r
      assume "r \<in> set (parseContent content)" and "type r = Footnote \<and> line r = i"
      then have r: "r \<in> set (parseContent content)" "type r = Footnote" "line r = i"
        by simp_all
      from each [OF r] show "ch r + matchLength r = length ?l" by (rule conjunct1)
      from each [OF r] show "\<forall>j<ch r. footnoteDef (drop j ?l) = None"
        by (elim conjE)
      from each [OF r] show "\<exists>ident ws body.
                drop (ch r) ?l = js ''[^'' @ ident @ js '']:'' @ ws @ body
                \<and> (\<forall>c\<in>set ws. isWhiteSpace c)
                \<and> text r = js ''[^'' @ ident @ js '']: '' @ body"
        by (elim conjE)
    qed
  qed
qed

theorem one_footnote_per_line_witness:
  "list_all (\<lambda>c. \<not> isLineTerminator c) (split_nl (js ''x [^a]:  b [^c]: d'') ! 0)
   \<and> length (filter (\<lambda>r. type r = Footnote \<and> line r = 0)
               (parseContent (js ''x [^a]:  b [^c]: d''))) \<le> 1
   \<and> parseContent (js ''x [^a]:  b [^c]: d'') =
       [\<lparr>type = Footnote, text = js ''[^a]: b [^c]: d'', line = 0, ch = 2,
         matchLength = 16\<rparr>]"
proof -
  have i: "0 < length (split_nl (js ''x [^a]:  b [^c]: d''))"
    by (simp add: js_def)
  have n: "\<forall>c\<in>set (split_nl (js ''x [^a]:  b [^c]: d'') ! 0). \<not> isLineTerminator c"
    by (simp add: js_def isLineTerminator_def)
  have a: "length (filter (\<lambda>r. type r = Footnote \<and> line r = 0)
                     (parseContent (js ''x [^a]:  b [^c]: d''))) \<le> 1"
    using one_footnote_per_line [OF i n] by (rule conjunct1)
  have b: "list_all (\<lambda>c. \<not> isLineTerminator c) (split_nl (js ''x [^a]:  b [^c]: d'') ! 0)"
    using n by (simp only: list_all_iff)
  have c: "parseContent (js ''x [^a]:  b [^c]: d'') =
       [\<lparr>type = Footnote, text = js ''[^a]: b [^c]: d'', line = 0, ch = 2,
         matchLength = 16\<rparr>]"
    by (simp add: eval_defs)
  from b a c show ?thesis by (intro conjI)
qed

text \<open>C10, as the specification words it, fails on a line that holds a line terminator
  other than the line feed: \<open>(.*)\<close> stops at U+2028, the search goes on behind it, and
  the one line of 15 code units gives two footnote records, the first with the match
  length 7.\<close>

theorem two_footnotes_on_one_line:
  "split_nl (js ''[^1]: a'' @ [8232] @ js ''[^2]: b'') = [js ''[^1]: a'' @ [8232] @ js ''[^2]: b'']
   \<and> length (js ''[^1]: a'' @ [8232] @ js ''[^2]: b'') = 15
   \<and> parseContent (js ''[^1]: a'' @ [8232] @ js ''[^2]: b'') =
       [\<lparr>type = Footnote, text = js ''[^1]: a'', line = 0, ch = 0, matchLength = 7\<rparr>,
        \<lparr>type = Footnote, text = js ''[^2]: b'', line = 0, ch = 8, matchLength = 7\<rparr>]"
  by (simp add: eval_defs)

section \<open>The text of a record\<close>

lemma take_drop_whole: "s = a @ t \<Longrightarrow> n = length a \<Longrightarrow> take n s = a \<and> drop n s = t"
  by simp

lemma literal_split:
  "literal ic p s = Some r \<Longrightarrow>
     \<exists>o'. s = o' @ r \<and> length o' = length p
          \<and> (if ic then map canonicalize o' = map canonicalize p else o' = p)"
proof (induction p arbitrary: s)
  case Nil
  then show ?case by simp
next
  case (Cons a p)
  then obtain c cs where s: "s = c # cs" by (cases s) auto
  from Cons.prems s have hd: "if ic then canonicalize c = canonicalize a else c = a"
    and tl: "literal ic p cs = Some r"
    by (auto split: if_splits)
  from Cons.IH [OF tl] obtain o' where
    o: "cs = o' @ r" "length o' = length p"
       "if ic then map canonicalize o' = map canonicalize p else o' = p"
    by blast
  have "s = (c # o') @ r" using s o(1) by simp
  moreover have "length (c # o') = length (a # p)" using o(2) by simp
  moreover have "if ic then map canonicalize (c # o') = map canonicalize (a # p)
                 else c # o' = a # p"
    using hd o(3) by (cases ic) simp_all
  ultimately show ?case by blast
qed

lemma lazyDots_split:
  "lazyDots ic cls s = Some inner \<Longrightarrow>
     take (length inner) s = inner
     \<and> (\<exists>rest. literal ic cls (drop (length inner) s) = Some rest)
     \<and> (\<forall>x\<in>set inner. \<not> isLineTerminator x)"
proof (induction s arbitrary: inner)
  case Nil
  then show ?case by (auto split: if_splits)
next
  case (Cons c cs)
  show ?case
  proof (cases "literal ic cls (c # cs) \<noteq> None")
    case True
    then have "inner = []" using Cons.prems by simp
    then show ?thesis using True by auto
  next
    case False
    then have nl: "\<not> isLineTerminator c"
      and "map_option (Cons c) (lazyDots ic cls cs) = Some inner"
      using Cons.prems by (auto split: if_splits)
    then obtain inner' where i: "lazyDots ic cls cs = Some inner'" "inner = c # inner'"
      by auto
    from Cons.IH [OF i(1)] show ?thesis using i(2) nl by simp
  qed
qed

lemma delimited_split:
  assumes "delimited ic opn cls s = Some (n, inner, g2)"
  shows "\<exists>o' c'. take n s = o' @ inner @ c'
           \<and> (if ic then map canonicalize o' = map canonicalize opn
                          \<and> map canonicalize c' = map canonicalize cls
               else o' = opn \<and> c' = cls)"
proof -
  from assms obtain rest where r1: "literal ic opn s = Some rest"
    by (auto simp: delimited_def split: option.splits)
  from assms r1 have r2: "lazyDots ic cls rest = Some inner"
    and n: "n = length opn + length inner + length cls"
    by (auto simp: delimited_def split: option.splits)
  from literal_split [OF r1] obtain o' where
    o: "s = o' @ rest" "length o' = length opn"
       "if ic then map canonicalize o' = map canonicalize opn else o' = opn"
    by blast
  from lazyDots_split [OF r2] obtain rest2 where
    t: "take (length inner) rest = inner"
    and l: "literal ic cls (drop (length inner) rest) = Some rest2"
    by blast
  from literal_split [OF l] obtain c' where
    c: "drop (length inner) rest = c' @ rest2" "length c' = length cls"
       "if ic then map canonicalize c' = map canonicalize cls else c' = cls"
    by blast
  have "rest = inner @ c' @ rest2"
    using t c(1) append_take_drop_id [of "length inner" rest] by simp
  then have "s = (o' @ inner @ c') @ rest2" using o(1) by simp
  moreover have "n = length (o' @ inner @ c')" using n o(2) c(2) by simp
  ultimately have "take n s = o' @ inner @ c'" by simp
  then show ?thesis using o(3) c(3) by (cases ic) auto
qed

lemma scan_Nil_None: "m [] = None \<Longrightarrow> scan m p skip [] = []"
  by simp

lemma scan_Nil_Some:
  "m [] = Some (a, b, d) \<Longrightarrow> scan m p skip [] = (if skip = 0 then [(p, a, b, d)] else [])"
  by simp

lemma scan_Cons_skip: "0 < skip \<Longrightarrow> scan m p skip (c # cs) = scan m (Suc p) (skip - 1) cs"
  by simp

lemma scan_Cons_None:
  "m (c # cs) = None \<Longrightarrow> scan m p 0 (c # cs) = scan m (Suc p) 0 cs"
  by simp

lemma scan_Cons_Some:
  "m (c # cs) = Some (a, b, d) \<Longrightarrow>
     scan m p 0 (c # cs) = (p, a, b, d) # scan m (Suc p) (a - 1) cs"
  by simp

lemma scan_results:
  "(i, n, g1, g2) \<in> set (scan m p skip s) \<Longrightarrow>
     p \<le> i \<and> i - p \<le> length s \<and> m (drop (i - p) s) = Some (n, g1, g2)"
proof (induction s arbitrary: p skip)
  case Nil
  show ?case
  proof (cases "m []")
    case None
    from Nil show ?thesis
      by (simp only: scan_Nil_None [of m, OF None] list.set empty_iff)
  next
    case (Some r)
    obtain a b d where r: "r = (a, b, d)" by (cases r) auto
    from Nil have "skip = 0 \<and> (i, n, g1, g2) = (p, a, b, d)"
      by (simp only: scan_Nil_Some [of m, OF Some [unfolded r]] split: if_splits) simp_all
    then show ?thesis using Some r by simp
  qed
next
  case (Cons c cs)
  have step: "p \<le> i \<and> i - p \<le> length (c # cs) \<and> m (drop (i - p) (c # cs)) = Some (n, g1, g2)"
    if "(i, n, g1, g2) \<in> set (scan m (Suc p) k cs)" for k
  proof -
    from Cons.IH [OF that] have a: "Suc p \<le> i" "i - Suc p \<le> length cs"
      "m (drop (i - Suc p) cs) = Some (n, g1, g2)" by simp_all
    have "i - p = Suc (i - Suc p)" using a(1) by simp
    then show ?thesis using a by simp
  qed
  show ?case
  proof (cases "0 < skip")
    case True
    from Cons.prems have "(i, n, g1, g2) \<in> set (scan m (Suc p) (skip - 1) cs)"
      by (simp only: scan_Cons_skip [of skip m, OF True])
    then show ?thesis by (rule step)
  next
    case False
    then have z: "skip = 0" by simp
    show ?thesis
    proof (cases "m (c # cs)")
      case None
      from Cons.prems have "(i, n, g1, g2) \<in> set (scan m (Suc p) 0 cs)"
        by (simp only: z scan_Cons_None [of m, OF None])
      then show ?thesis by (rule step)
    next
      case (Some r)
      obtain a b d where r: "r = (a, b, d)" by (cases r) auto
      from Cons.prems
      have "(i, n, g1, g2) = (p, a, b, d)
            \<or> (i, n, g1, g2) \<in> set (scan m (Suc p) (a - 1) cs)"
        by (simp only: z scan_Cons_Some [of m, OF Some [unfolded r]] set_simps insert_iff)
      then show ?thesis
      proof
        assume "(i, n, g1, g2) = (p, a, b, d)"
        then show ?thesis using Some r by simp
      next
        assume "(i, n, g1, g2) \<in> set (scan m (Suc p) (a - 1) cs)"
        then show ?thesis by (rule step)
      qed
    qed
  qed
qed

lemma footnoteDef_split:
  assumes m: "footnoteDef s = Some (n, ident, body)"
  shows "\<exists>ws. take n s = js ''[^'' @ ident @ js '']:'' @ ws @ body
           \<and> (\<forall>c\<in>set ws. isWhiteSpace c)
           \<and> ident \<noteq> [] \<and> 93 \<notin> set ident
           \<and> (\<forall>c\<in>set body. \<not> isLineTerminator c)
           \<and> (body = [] \<or> \<not> isWhiteSpace (hd body))
           \<and> (drop n s = [] \<or> isLineTerminator (hd (drop n s)))"
proof -
  from m obtain rest where r1: "literal False (js ''[^'') s = Some rest"
    by (auto simp: footnoteDef_def split: option.splits)
  define idt where "idt = takeWhile (\<lambda>c. c \<noteq> 93) rest"
  from m r1 have ne: "idt \<noteq> []"
    by (auto simp: footnoteDef_def Let_def idt_def split: option.splits if_splits)
  from m r1 obtain rest2 where
    r2: "literal False (js '']:'') (drop (length idt) rest) = Some rest2"
    by (auto simp: footnoteDef_def Let_def idt_def split: option.splits if_splits)
  define ws where "ws = takeWhile isWhiteSpace rest2"
  define d where "d = dropWhile isWhiteSpace rest2"
  define bd where "bd = takeWhile (\<lambda>c. \<not> isLineTerminator c) d"
  define tl where "tl = dropWhile (\<lambda>c. \<not> isLineTerminator c) d"
  from m r1 r2 have res: "n = 2 + length idt + 2 + length ws + length bd" "ident = idt" "body = bd"
    by (auto simp: footnoteDef_def Let_def idt_def ws_def bd_def d_def
        split: option.splits if_splits)
  have s1: "s = js ''[^'' @ rest" using r1 by (simp add: literal_False)
  have dr: "drop (length idt) rest = js '']:'' @ rest2" using r2 by (simp add: literal_False)
  have "take (length idt) rest = idt"
    unfolding idt_def by (rule takeWhile_eq_take [symmetric])
  then have s2: "rest = idt @ js '']:'' @ rest2"
    using dr by (metis append_take_drop_id)
  have s3: "rest2 = ws @ d" by (simp add: ws_def d_def)
  have s4: "d = bd @ tl" by (simp add: bd_def tl_def)
  have w: "\<forall>c\<in>set ws. isWhiteSpace c"
    unfolding ws_def by (auto dest: set_takeWhileD)
  have i93: "93 \<notin> set idt"
    unfolding idt_def by (auto dest: set_takeWhileD)
  have b1: "\<forall>c\<in>set bd. \<not> isLineTerminator c"
    unfolding bd_def by (auto dest: set_takeWhileD)
  have b2: "bd = [] \<or> \<not> isWhiteSpace (hd bd)"
  proof (cases "bd = []")
    case True
    then show ?thesis by simp
  next
    case False
    then have "d \<noteq> []" by (auto simp: bd_def)
    then have "\<not> isWhiteSpace (hd d)" unfolding d_def by (rule hd_dropWhile)
    moreover have "hd bd = hd d" using False s4 by (cases bd) (auto)
    ultimately show ?thesis by simp
  qed
  have t: "tl = [] \<or> isLineTerminator (hd tl)"
  proof (cases "tl = []")
    case True
    then show ?thesis by simp
  next
    case False
    then have "\<not> \<not> isLineTerminator (hd tl)" unfolding tl_def by (rule hd_dropWhile)
    then show ?thesis by simp
  qed
  have whole: "s = (js ''[^'' @ idt @ js '']:'' @ ws @ bd) @ tl" using s1 s2 s3 s4 by simp
  have len: "n = length (js ''[^'' @ idt @ js '']:'' @ ws @ bd)"
    using res(1) by (simp add: js_def)
  have "take n s = js ''[^'' @ idt @ js '']:'' @ ws @ bd \<and> drop n s = tl"
    using whole len by (rule take_drop_whole)
  then show ?thesis using res w ne i93 b1 b2 t by auto
qed


lemma in_content_line:
  assumes "item \<in> set (parseContent content)"
  shows "line item < length (split_nl content)
         \<and> item \<in> set (parseLine (line item) (split_nl content ! line item))"
proof -
  have "item \<in> set (filter (\<lambda>r. line r = line item) (parseContent content))"
    using assms by simp
  then have "item \<in> set (if 0 \<le> line item \<and> line item < 0 + length (split_nl content)
                           then parseLine (line item) (split_nl content ! (line item - 0))
                           else [])"
    unfolding parseContent_def by (simp only: items_of_line)
  then show ?thesis by (simp split: if_splits)
qed

lemma parseLine_record:
  assumes "item \<in> set (parseLine i l)"
  shows "\<exists>k n m1 m2. ch item = k \<and> matchLength item = n \<and>
     ((type item = Highlight \<and> text item = m1
         \<and> (k, n, m1, m2) \<in> set (scan (delimited False (js ''=='') (js ''=='')) 0 0 l))
      \<or> (type item = Highlight \<and> text item = m1
         \<and> (k, n, m1, m2) \<in> set (scan (delimited True (js ''<mark>'') (js ''</mark>'')) 0 0 l))
      \<or> (type item = Comment \<and> text item = trim m1
         \<and> (k, n, m1, m2) \<in> set (scan (delimited False (js ''%%'') (js ''%%'')) 0 0 l))
      \<or> (type item = Comment \<and> text item = trim m1
         \<and> (k, n, m1, m2) \<in> set (scan (delimited False (js ''<!--'') (js ''-->'')) 0 0 l))
      \<or> (type item = Footnote \<and> text item = js ''[^'' @ m1 @ js '']: '' @ m2
         \<and> (k, n, m1, m2) \<in> set (scan footnoteDef 0 0 l)))"
  using assms unfolding parseLine_def matchAll_def by (simp only: set_append set_map Un_iff image_iff) fastforce


lemma delimited_at:
  assumes "(k, n, m1, m2) \<in> set (scan (delimited ic opn cls) 0 0 l)"
  shows "\<exists>o' c'. take n (drop k l) = o' @ m1 @ c'
           \<and> (if ic then map canonicalize o' = map canonicalize opn
                          \<and> map canonicalize c' = map canonicalize cls
               else o' = opn \<and> c' = cls)"
proof -
  from scan_results [OF assms] have "delimited ic opn cls (drop k l) = Some (n, m1, m2)"
    by simp
  then show ?thesis by (rule delimited_split)
qed

lemma highlight_text:
  assumes "item \<in> set (parseLine i l)" and "type item = Highlight"
  shows "\<exists>opn cls. take (matchLength item) (drop (ch item) l) = opn @ text item @ cls
           \<and> ((opn = js ''=='' \<and> cls = js ''=='')
                \<or> (map canonicalize opn = map canonicalize (js ''<mark>'')
                    \<and> map canonicalize cls = map canonicalize (js ''</mark>'')))"
proof -
  from parseLine_record [OF assms(1)] assms(2) obtain m2 where
    "(ch item, matchLength item, text item, m2)
       \<in> set (scan (delimited False (js ''=='') (js ''=='')) 0 0 l)
     \<or> (ch item, matchLength item, text item, m2)
       \<in> set (scan (delimited True (js ''<mark>'') (js ''</mark>'')) 0 0 l)"
    by auto
  then show ?thesis
  proof
    assume "(ch item, matchLength item, text item, m2)
              \<in> set (scan (delimited False (js ''=='') (js ''=='')) 0 0 l)"
    from delimited_at [OF this] show ?thesis by auto
  next
    assume "(ch item, matchLength item, text item, m2)
              \<in> set (scan (delimited True (js ''<mark>'') (js ''</mark>'')) 0 0 l)"
    from delimited_at [OF this] show ?thesis by auto
  qed
qed

lemma comment_text:
  assumes "item \<in> set (parseLine i l)" and "type item = Comment"
  shows "\<exists>opn inner cls. take (matchLength item) (drop (ch item) l) = opn @ inner @ cls
           \<and> text item = trim inner
           \<and> ((opn = js ''%%'' \<and> cls = js ''%%'') \<or> (opn = js ''<!--'' \<and> cls = js ''-->''))"
proof -
  from parseLine_record [OF assms(1)] assms(2) obtain m1 m2 where t: "text item = trim m1" and
    d: "(ch item, matchLength item, m1, m2)
       \<in> set (scan (delimited False (js ''%%'') (js ''%%'')) 0 0 l)
     \<or> (ch item, matchLength item, m1, m2)
       \<in> set (scan (delimited False (js ''<!--'') (js ''-->'')) 0 0 l)"
    by auto
  from d show ?thesis
  proof
    assume "(ch item, matchLength item, m1, m2)
              \<in> set (scan (delimited False (js ''%%'') (js ''%%'')) 0 0 l)"
    from delimited_at [OF this] show ?thesis using t by auto
  next
    assume "(ch item, matchLength item, m1, m2)
              \<in> set (scan (delimited False (js ''<!--'') (js ''-->'')) 0 0 l)"
    from delimited_at [OF this] show ?thesis using t by auto
  qed
qed

lemma footnote_text:
  assumes "item \<in> set (parseLine i l)" and "type item = Footnote"
  shows "\<exists>ident ws body.
           take (matchLength item) (drop (ch item) l) = js ''[^'' @ ident @ js '']:'' @ ws @ body
           \<and> text item = js ''[^'' @ ident @ js '']: '' @ body
           \<and> ident \<noteq> [] \<and> 93 \<notin> set ident
           \<and> (\<forall>c\<in>set ws. isWhiteSpace c)
           \<and> (\<forall>c\<in>set body. \<not> isLineTerminator c)
           \<and> (body = [] \<or> \<not> isWhiteSpace (hd body))
           \<and> (drop (ch item + matchLength item) l = []
                \<or> isLineTerminator (hd (drop (ch item + matchLength item) l)))"
proof -
  from parseLine_record [OF assms(1)] assms(2) obtain m1 m2 where
    t: "text item = js ''[^'' @ m1 @ js '']: '' @ m2"
    and "(ch item, matchLength item, m1, m2) \<in> set (scan footnoteDef 0 0 l)"
    by auto
  from scan_results [OF this(2)]
  have "footnoteDef (drop (ch item) l) = Some (matchLength item, m1, m2)" by simp
  from footnoteDef_split [OF this] obtain ws where
    "take (matchLength item) (drop (ch item) l) = js ''[^'' @ m1 @ js '']:'' @ ws @ m2"
    "\<forall>c\<in>set ws. isWhiteSpace c" "m1 \<noteq> []" "93 \<notin> set m1"
    "\<forall>c\<in>set m2. \<not> isLineTerminator c" "m2 = [] \<or> \<not> isWhiteSpace (hd m2)"
    "drop (matchLength item) (drop (ch item) l) = []
       \<or> isLineTerminator (hd (drop (matchLength item) (drop (ch item) l)))"
    by blast
  then show ?thesis using t by (auto simp: add.commute)
qed

text \<open>
  C4, as the code has it. Every record lies on a line of the document, and its text comes
  from its span as follows. The span of a comment is \<open>%%\<close>, an inner part, \<open>%%\<close>, or
  \<open><!--\<close>, an inner part, \<open>-->\<close>, and the text is the inner part trimmed, so it has no
  white space at either end. The span of a highlight is \<open>==\<close>, the text, \<open>==\<close>, or
  \<open><mark>\<close>, the text, \<open></mark>\<close> with the tags in any letter case: the text is the inner
  part as it stands. The span of a footnote is \<open>[^\<close>, an id, \<open>]:\<close>, white space, a body, and
  the text is \<open>[^\<close>, the id, \<open>]: \<close>, the body as it stands; the id is not empty and holds
  no \<open>]\<close>, the body holds no line terminator, does not begin with white space, and runs
  to the end of the line or to the first line terminator. So the text of a footnote has no
  leading white space.
\<close>

theorem record_text_of_span:
  assumes "item \<in> set (parseContent content)"
  shows "line item < length (split_nl content)
    \<and> (type item = Highlight \<longrightarrow>
         (\<exists>opn cls. span content item = opn @ text item @ cls
            \<and> ((opn = js ''=='' \<and> cls = js ''=='')
                 \<or> (map canonicalize opn = map canonicalize (js ''<mark>'')
                     \<and> map canonicalize cls = map canonicalize (js ''</mark>'')))))
    \<and> (type item = Comment \<longrightarrow>
         noOuterWhiteSpace (text item)
         \<and> (\<exists>opn inner cls. span content item = opn @ inner @ cls
               \<and> text item = trim inner
               \<and> ((opn = js ''%%'' \<and> cls = js ''%%'')
                    \<or> (opn = js ''<!--'' \<and> cls = js ''-->''))))
    \<and> (type item = Footnote \<longrightarrow>
         \<not> isWhiteSpace (hd (text item))
         \<and> (\<exists>ident ws body.
               span content item = js ''[^'' @ ident @ js '']:'' @ ws @ body
               \<and> text item = js ''[^'' @ ident @ js '']: '' @ body
               \<and> ident \<noteq> [] \<and> 93 \<notin> set ident
               \<and> (\<forall>c\<in>set ws. isWhiteSpace c)
               \<and> (\<forall>c\<in>set body. \<not> isLineTerminator c)
               \<and> (body = [] \<or> \<not> isWhiteSpace (hd body))
               \<and> (drop (ch item + matchLength item) (split_nl content ! line item) = []
                    \<or> isLineTerminator
                         (hd (drop (ch item + matchLength item) (split_nl content ! line item))))))"
proof -
  let ?l = "split_nl content ! line item"
  from in_content_line [OF assms]
  have len: "line item < length (split_nl content)"
    and m: "item \<in> set (parseLine (line item) ?l)"
    by simp_all
  have sp: "span content item = take (matchLength item) (drop (ch item) ?l)"
    by (simp add: span_def)
  have h: "type item = Highlight \<longrightarrow>
         (\<exists>opn cls. span content item = opn @ text item @ cls
            \<and> ((opn = js ''=='' \<and> cls = js ''=='')
                 \<or> (map canonicalize opn = map canonicalize (js ''<mark>'')
                     \<and> map canonicalize cls = map canonicalize (js ''</mark>''))))"
    unfolding sp by (rule impI) (rule highlight_text [OF m])
  have c: "type item = Comment \<longrightarrow>
         noOuterWhiteSpace (text item)
         \<and> (\<exists>opn inner cls. span content item = opn @ inner @ cls
               \<and> text item = trim inner
               \<and> ((opn = js ''%%'' \<and> cls = js ''%%'')
                    \<or> (opn = js ''<!--'' \<and> cls = js ''-->'')))"
  proof (intro impI conjI)
    assume ty: "type item = Comment"
    from comment_text [OF m ty] obtain inner where "text item = trim inner" by blast
    then show "noOuterWhiteSpace (text item)" using noOuterWhiteSpace_trim by simp
    show "\<exists>opn inner cls. span content item = opn @ inner @ cls
               \<and> text item = trim inner
               \<and> ((opn = js ''%%'' \<and> cls = js ''%%'')
                    \<or> (opn = js ''<!--'' \<and> cls = js ''-->''))"
      unfolding sp by (rule comment_text [OF m ty])
  qed
  have f: "type item = Footnote \<longrightarrow>
         \<not> isWhiteSpace (hd (text item))
         \<and> (\<exists>ident ws body.
               span content item = js ''[^'' @ ident @ js '']:'' @ ws @ body
               \<and> text item = js ''[^'' @ ident @ js '']: '' @ body
               \<and> ident \<noteq> [] \<and> 93 \<notin> set ident
               \<and> (\<forall>c\<in>set ws. isWhiteSpace c)
               \<and> (\<forall>c\<in>set body. \<not> isLineTerminator c)
               \<and> (body = [] \<or> \<not> isWhiteSpace (hd body))
               \<and> (drop (ch item + matchLength item) ?l = []
                    \<or> isLineTerminator (hd (drop (ch item + matchLength item) ?l))))"
  proof (intro impI conjI)
    assume ty: "type item = Footnote"
    from footnote_text [OF m ty] obtain ident body where
      "text item = js ''[^'' @ ident @ js '']: '' @ body"
      by blast
    then have "hd (text item) = 91" by (simp add: js_def)
    then show "\<not> isWhiteSpace (hd (text item))"
      by (simp add: isWhiteSpace_def isLineTerminator_def)
    show "\<exists>ident ws body.
               span content item = js ''[^'' @ ident @ js '']:'' @ ws @ body
               \<and> text item = js ''[^'' @ ident @ js '']: '' @ body
               \<and> ident \<noteq> [] \<and> 93 \<notin> set ident
               \<and> (\<forall>c\<in>set ws. isWhiteSpace c)
               \<and> (\<forall>c\<in>set body. \<not> isLineTerminator c)
               \<and> (body = [] \<or> \<not> isWhiteSpace (hd body))
               \<and> (drop (ch item + matchLength item) ?l = []
                    \<or> isLineTerminator (hd (drop (ch item + matchLength item) ?l)))"
      unfolding sp by (rule footnote_text [OF m ty])
  qed
  from len h c f show ?thesis by (intro conjI)
qed

theorem record_text_of_span_witness:
  "\<lparr>type = Comment, text = js ''a'', line = 0, ch = 0, matchLength = 7\<rparr>
     \<in> set (parseContent (js ''%% a %%''))
   \<and> noOuterWhiteSpace (js ''a'')"
proof -
  let ?r = "\<lparr>type = Comment, text = js ''a'', line = 0, ch = 0, matchLength = 7\<rparr>"
  have h: "?r \<in> set (parseContent (js ''%% a %%''))"
    by (simp add: eval_defs)
  have ty: "type ?r = Comment" by simp
  note t = record_text_of_span [OF h]
  have "noOuterWhiteSpace (text ?r)"
    by (rule t [THEN conjunct2, THEN conjunct2, THEN conjunct1, THEN mp, OF ty, THEN conjunct1])
  then have "noOuterWhiteSpace (js ''a'')" by simp
  with h show ?thesis by (rule conjI)
qed

text \<open>C4, as the specification words it, fails for two of the three categories: the
  highlight of \<open>== a ==\<close> has the text " a ", and the footnote of the line \<open>[^1]: x \<close>
  keeps the space at its end.\<close>

theorem highlight_and_footnote_text_untrimmed:
  "parseContent (js ''== a =='') =
     [\<lparr>type = Highlight, text = js '' a '', line = 0, ch = 0, matchLength = 7\<rparr>]
   \<and> \<not> noOuterWhiteSpace (js '' a '')
   \<and> parseContent (js ''[^1]: x '') =
     [\<lparr>type = Footnote, text = js ''[^1]: x '', line = 0, ch = 0, matchLength = 8\<rparr>]
   \<and> \<not> noOuterWhiteSpace (js ''[^1]: x '')"
  by (simp add: eval_defs noOuterWhiteSpace_def)

end
